theory Spec2Isabelle
  imports Main "HOL-Library.Word" "HOL-Library.Sublist" "HOL-Library.Multiset"
begin

section \<open>Strings of the Go standard library\<close>

text \<open>
  A Go string is a sequence of bytes and \<open>len\<close> counts bytes, so a Go string is a
  \<^typ>\<open>string\<close> here. The four functions of package \<open>strings\<close> that
  \<open>reviewers.go\<close> calls are written out after their library definitions.
\<close>

text \<open>\<open>strings.HasPrefix(s, prefix)\<close>: \<open>len(s) >= len(prefix) && s[:len(prefix)] == prefix\<close>.\<close>

definition HasPrefix :: "string \<Rightarrow> string \<Rightarrow> bool" where
  "HasPrefix s pre = (length pre \<le> length s \<and> take (length pre) s = pre)"

text \<open>\<open>strings.HasSuffix(s, suffix)\<close>: \<open>len(s) >= len(suffix) && s[len(s)-len(suffix):] == suffix\<close>.\<close>

definition HasSuffix :: "string \<Rightarrow> string \<Rightarrow> bool" where
  "HasSuffix s suf = (length suf \<le> length s \<and> drop (length s - length suf) s = suf)"

text \<open>\<open>strings.TrimPrefix(s, prefix)\<close>: \<open>s\<close> without the leading \<open>prefix\<close>, and \<open>s\<close>
  itself when it does not start with \<open>prefix\<close>.\<close>

definition TrimPrefix :: "string \<Rightarrow> string \<Rightarrow> string" where
  "TrimPrefix s pre = (if HasPrefix s pre then drop (length pre) s else s)"

text \<open>\<open>strings.Trim(s, cutset)\<close>: \<open>s\<close> with all leading and trailing bytes contained in
  \<open>cutset\<close> removed. The program only passes the cutset \<open>" "\<close>.\<close>

definition Trim :: "string \<Rightarrow> string \<Rightarrow> string" where
  "Trim s cutset =
     rev (dropWhile (\<lambda>c. c \<in> set cutset) (rev (dropWhile (\<lambda>c. c \<in> set cutset) s)))"

text \<open>\<open>strings.Split(s, sep)\<close> for a separator of one byte: the pieces of \<open>s\<close> between
  the separators, one more piece than there are separators (so \<open>[""]\<close> for the empty
  string). The program only splits at \<open>"\n"\<close>.\<close>

fun Split :: "string \<Rightarrow> char \<Rightarrow> string list" where
  "Split [] sep = [[]]"
| "Split (c # s) sep =
     (if c = sep then [] # Split s sep
      else (case Split s sep of
              [] \<Rightarrow> [[c]]
            | piece # pieces \<Rightarrow> (c # piece) # pieces))"

section \<open>The reviewer's options\<close>

text \<open>The struct \<open>Reviewer\<close> of \<open>reviewers.go\<close>.\<close>

record Reviewer =
  ShowFiles :: bool
  Verbose :: bool
  Since :: string
  IgnoredExtensions :: "string list"
  OnlyExtensions :: "string list"
  IgnoredPaths :: "string list"
  OnlyPaths :: "string list"

definition defaultIgnoreExt :: "string list" where
  "defaultIgnoreExt = [''svg'', ''json'', ''nock'', ''xml'']"

section \<open>The filters\<close>

text \<open>The loop over \<open>opts.OnlyExtensions\<close> in \<open>considerExt\<close>: it returns true at the
  first entry the path ends with; falling out of the loop leads to the final
  \<open>return false\<close>.\<close>

fun anyAllowedExt :: "string \<Rightarrow> string list \<Rightarrow> bool" where
  "anyAllowedExt path [] = False"
| "anyAllowedExt path (ext # exts) =
     (if HasSuffix path ext then True else anyAllowedExt path exts)"

text \<open>The loop over \<open>ignExt\<close>: \<open>passes = passes && !strings.HasSuffix(path, ext)\<close>.\<close>

fun passesIgnoredExt :: "bool \<Rightarrow> string \<Rightarrow> string list \<Rightarrow> bool" where
  "passesIgnoredExt passes path [] = passes"
| "passesIgnoredExt passes path (ext # exts) =
     passesIgnoredExt (passes \<and> \<not> HasSuffix path ext) path exts"

definition considerExt :: "string \<Rightarrow> Reviewer \<Rightarrow> bool" where
  "considerExt path opts =
     (let ignExt = defaultIgnoreExt @ IgnoredExtensions opts;
          lAllow = length (OnlyExtensions opts);
          lIgnore = length ignExt
      in if lAllow = 0 \<and> lIgnore = 0 then True
         else if lAllow > 0 then
           (if anyAllowedExt path (OnlyExtensions opts) then True else False)
         else if lIgnore > 0 then passesIgnoredExt True path ignExt
         else False)"

text \<open>The loop over \<open>opts.OnlyPaths\<close> in \<open>considerPath\<close>:
  \<open>len(strings.TrimPrefix(path, prefix)) < pLen\<close> returns true.\<close>

fun anyAllowedPath :: "string \<Rightarrow> nat \<Rightarrow> string list \<Rightarrow> bool" where
  "anyAllowedPath path pLen [] = False"
| "anyAllowedPath path pLen (pre # pres) =
     (if length (TrimPrefix path pre) < pLen then True else anyAllowedPath path pLen pres)"

text \<open>The loop over \<open>opts.IgnoredPaths\<close>:
  \<open>passes = passes && len(strings.TrimPrefix(path, prefix)) == pLen\<close>.\<close>

fun passesIgnoredPath :: "bool \<Rightarrow> string \<Rightarrow> nat \<Rightarrow> string list \<Rightarrow> bool" where
  "passesIgnoredPath passes path pLen [] = passes"
| "passesIgnoredPath passes path pLen (pre # pres) =
     passesIgnoredPath (passes \<and> length (TrimPrefix path pre) = pLen) path pLen pres"

definition considerPath :: "string \<Rightarrow> Reviewer \<Rightarrow> bool" where
  "considerPath path opts =
     (let lAllow = length (OnlyPaths opts);
          lIgnore = length (IgnoredPaths opts);
          pLen = length path
      in if lAllow = 0 \<and> lIgnore = 0 then True
         else if lAllow > 0 then
           (if anyAllowedPath path pLen (OnlyPaths opts) then True else False)
         else if lIgnore > 0 then passesIgnoredPath True path pLen (IgnoredPaths opts)
         else False)"

section \<open>Stat and Stats\<close>

text \<open>
  The struct \<open>Stat\<close>. Go's \<open>int\<close> is taken at its width on 64-bit targets:
  \<open>+\<close> wraps around, \<open><\<close> compares the signed values and \<open>%d\<close> prints the
  signed value.
\<close>

record Stat =
  Reviewer :: string
  Count :: "64 word"

type_synonym Stats = "Stat list"

text \<open>Decimal digits of a natural number, and \<open>%d\<close> of a signed integer.\<close>

fun digits :: "nat \<Rightarrow> string" where
  "digits n =
     (if n < 10 then [''0123456789'' ! n]
      else digits (n div 10) @ [''0123456789'' ! (n mod 10)])"

declare digits.simps [simp del]

definition fmtInt :: "int \<Rightarrow> string" where
  "fmtInt i = (if i < 0 then CHR ''-'' # digits (nat (- i)) else digits (nat i))"

text \<open>\<open>(cs *Stat) String()\<close>: \<open>fmt.Sprintf("  %d\t%s", cs.Count, cs.Reviewer)\<close>.\<close>

definition Stat_String :: "Stat \<Rightarrow> string" where
  "Stat_String cs = ''  '' @ fmtInt (sint (Count cs)) @ [CHR 0x09] @ Reviewer cs"

text \<open>The methods that make \<open>Stats\<close> a \<open>sort.Interface\<close>. The sorting procedures
  only call \<open>Less\<close> and \<open>Swap\<close> with indices below \<open>Len\<close>.\<close>

definition Stats_Len :: "Stats \<Rightarrow> nat" where
  "Stats_Len s = length s"

definition Stats_Less :: "Stats \<Rightarrow> nat \<Rightarrow> nat \<Rightarrow> bool" where
  "Stats_Less s i j = (Count (s ! i) <s Count (s ! j))"

definition Stats_Swap :: "Stats \<Rightarrow> nat \<Rightarrow> nat \<Rightarrow> Stats" where
  "Stats_Swap s i j = s[i := s ! j, j := s ! i]"

text \<open>
  \<open>AddToSet\<close>: the loop runs over the entries from the front; at the first entry with
  the reviewer of \<open>val\<close> it adds the count in place and returns; when the loop ends
  without a match, \<open>val\<close> is appended.
\<close>

fun AddToSet :: "Stats \<Rightarrow> Stat \<Rightarrow> Stats" where
  "AddToSet [] val = [val]"
| "AddToSet (stat # s) val =
     (if Reviewer stat = Reviewer val
      then stat\<lparr>Count := Count stat + Count val\<rparr> # s
      else stat # AddToSet s val)"

text \<open>The reviewer-to-count totals a collection holds: the count of the first entry
  with the reviewer, and nothing for a reviewer without an entry.\<close>

definition totals :: "Stats \<Rightarrow> string \<Rightarrow> 64 word option" where
  "totals s = map_of (map (\<lambda>stat. (Reviewer stat, Count stat)) s)"

section \<open>Sorting\<close>

text \<open>
  \<open>sort.Sort\<close> and \<open>sort.Reverse\<close> belong to Go's standard library, not to the
  repository. \<open>sort.Reverse\<close> exchanges the arguments of \<open>Less\<close>. Of \<open>sort.Sort\<close> the
  library documents that it sorts the data in ascending order as determined by
  \<open>Less\<close>, rearranging it by \<open>Swap\<close> only, and that the sort is not guaranteed to
  be stable. A sorting procedure is therefore a parameter of the model, and
  \<open>sort_Sort_contract\<close> is what the documentation promises of it: the result is a
  rearrangement of the input in which no later element is \<open>Less\<close> than an earlier one.
\<close>

type_synonym less_method = "Stats \<Rightarrow> nat \<Rightarrow> nat \<Rightarrow> bool"

type_synonym sorter = "less_method \<Rightarrow> Stats \<Rightarrow> Stats"

definition sort_Reverse :: "less_method \<Rightarrow> less_method" where
  "sort_Reverse lt s i j = lt s j i"

definition sort_Sort_contract :: "less_method \<Rightarrow> sorter \<Rightarrow> bool" where
  "sort_Sort_contract lt srt \<longleftrightarrow>
     (\<forall>s. mset (srt lt s) = mset s \<and>
          (\<forall>i j. i < j \<and> j < length s \<longrightarrow> \<not> lt (srt lt s) j i))"

text \<open>
  One procedure that meets the contract, used to run the model: the path that the
  library's \<open>quickSort\<close> (Go 1.6 to 1.18) takes on a slice of at most 12 elements,
  which is one pass of compare-and-swap at distance 6 followed by insertion sort.
  \<^verbatim>\<open>
  for i := a + 6; i < b; i++ {
      if data.Less(i, i-6) { data.Swap(i, i-6) }
  }
  insertionSort(data, a, b)

  func insertionSort(data Interface, a, b int) {
      for i := a + 1; i < b; i++ {
          for j := i; j > a && data.Less(j, j-1); j-- { data.Swap(j, j-1) }
      }
  }
  \<close>
  with \<open>a = 0\<close> and \<open>b = data.Len()\<close>. On longer slices the library partitions
  first; there the definition below is only one of the procedures the contract allows.
\<close>

fun insertionSort_inner :: "less_method \<Rightarrow> Stats \<Rightarrow> nat \<Rightarrow> Stats" where
  "insertionSort_inner lt s 0 = s"
| "insertionSort_inner lt s (Suc j) =
     (if lt s (Suc j) j then insertionSort_inner lt (Stats_Swap s (Suc j) j) j else s)"

definition insertionSort :: "less_method \<Rightarrow> Stats \<Rightarrow> Stats" where
  "insertionSort lt s = foldl (insertionSort_inner lt) s [1..<Stats_Len s]"

definition shellPass :: "less_method \<Rightarrow> Stats \<Rightarrow> Stats" where
  "shellPass lt s =
     foldl (\<lambda>d i. if lt d i (i - 6) then Stats_Swap d i (i - 6) else d) s [6..<Stats_Len s]"

definition sort_Sort_small :: sorter where
  "sort_Sort_small lt s =
     (if Stats_Len s > 1 then insertionSort lt (shellPass lt s) else s)"

section \<open>FindReviewers\<close>

text \<open>
  Go's \<open>error\<close> values are opaque to the program; a \<open>nil\<close> error is \<open>None\<close>.
\<close>

datatype error = Error string

text \<open>
  \<open>FindReviewers\<close> opens one channel of \<open>Stats\<close> values per path with
  \<open>committerCounts(path, r.Since)\<close> and hands the channels to \<open>mergeChans\<close>. The
  channel-returning \<open>committerCounts\<close> is not among the repository's files
  (\<open>gitsh.go\<close> holds a version that returns \<open>(Stats, error)\<close>), so the model starts
  from what the channels deliver.

  \<open>mergeChans\<close> forwards every non-empty \<open>Stats\<close> value it takes off one of the
  per-path channels to the channel \<open>out\<close>, and closes \<open>out\<close> when all of them are
  closed. The order in which the forwarding goroutines hand over their values is the
  scheduler's choice: it is the input \<open>sent\<close>, the values the per-path channels
  deliver, in the order in which they are taken off. That all channels are closed
  after finitely many values is what \<open>sent\<close> being a list says.
\<close>

definition mergeChans :: "Stats list \<Rightarrow> Stats list" where
  "mergeChans sent = filter (\<lambda>stats. length stats > 0) sent"

text \<open>The inner loop of \<open>FindReviewers\<close>, over the entries of one \<open>Stats\<close> value.\<close>

fun mergeStats :: "Stats \<Rightarrow> Stats \<Rightarrow> Stats" where
  "mergeStats finalStats [] = finalStats"
| "mergeStats finalStats (stat # stats) =
     mergeStats (if length (Reviewer stat) > 0 then AddToSet finalStats stat else finalStats)
       stats"

text \<open>The outer loop, \<open>for stats := range data\<close>.\<close>

fun drain :: "Stats \<Rightarrow> Stats list \<Rightarrow> Stats" where
  "drain finalStats [] = finalStats"
| "drain finalStats (stats # data) = drain (mergeStats finalStats stats) data"

text \<open>\<open>sort.Sort(sort.Reverse(finalStats))\<close>.\<close>

definition rankStats :: "sorter \<Rightarrow> Stats \<Rightarrow> Stats" where
  "rankStats srt finalStats = srt (sort_Reverse Stats_Less) finalStats"

text \<open>The rest of \<open>FindReviewers\<close> after the merge loop: rank, cut to at most three
  entries, format each one; the error returned is always \<open>nil\<close>.\<close>

definition topReviewers :: "sorter \<Rightarrow> Stats \<Rightarrow> string list \<times> error option" where
  "topReviewers srt finalStats =
     (let ranked = rankStats srt finalStats;
          maxStats = (if length ranked < 3 then length ranked else 3)
      in (map Stat_String (take maxStats ranked), None))"

definition FindReviewers :: "sorter \<Rightarrow> Stats list \<Rightarrow> string list \<times> error option" where
  "FindReviewers srt sent = topReviewers srt (drain [] (mergeChans sent))"

section \<open>FindFiles\<close>

text \<open>
  The loop of \<open>FindFiles\<close> over the lines of the diff output: the trimmed line \<open>l\<close>
  must be non-empty, the two filters are called with \<open>line\<close>, and \<open>l\<close> is appended.
\<close>

fun FindFiles_lines :: "Reviewer \<Rightarrow> string list \<Rightarrow> string list" where
  "FindFiles_lines r [] = []"
| "FindFiles_lines r (line # rest) =
     (let l = Trim line '' ''
      in if length l > 0 \<and> considerExt line r \<and> considerPath line r
         then l # FindFiles_lines r rest
         else FindFiles_lines r rest)"

text \<open>\<open>FindFiles\<close>, given what \<open>run("git diff master HEAD --name-only")\<close> returned:
  the error, or the output.\<close>

definition FindFiles :: "Reviewer \<Rightarrow> error + string \<Rightarrow> error + string list" where
  "FindFiles r res =
     (case res of
        Inl err \<Rightarrow> Inl err
      | Inr out \<Rightarrow> Inr (FindFiles_lines r (Split out (CHR 0x0A))))"

section \<open>Sample inputs\<close>

text \<open>Options with all four filter lists empty.\<close>

definition noFilters :: Reviewer where
  "noFilters = \<lparr>ShowFiles = False, Verbose = False, Since = [],
     IgnoredExtensions = [], OnlyExtensions = [], IgnoredPaths = [], OnlyPaths = []\<rparr>"

text \<open>Options whose only filter is the allowed path prefix \<open>src\<close>.\<close>

definition onlySrc :: Reviewer where
  "onlySrc = \<lparr>ShowFiles = False, Verbose = False, Since = [],
     IgnoredExtensions = [], OnlyExtensions = [], IgnoredPaths = [], OnlyPaths = [''src'']\<rparr>"

text \<open>An aggregate of seven reviewers: \<open>a\<close> with one commit arrived first, then six
  reviewers with two commits each.\<close>

definition sevenReviewers :: Stats where
  "sevenReviewers =
     [\<lparr>Reviewer = ''a'', Count = 1\<rparr>, \<lparr>Reviewer = ''b'', Count = 2\<rparr>,
      \<lparr>Reviewer = ''c'', Count = 2\<rparr>, \<lparr>Reviewer = ''d'', Count = 2\<rparr>,
      \<lparr>Reviewer = ''e'', Count = 2\<rparr>, \<lparr>Reviewer = ''f'', Count = 2\<rparr>,
      \<lparr>Reviewer = ''g'', Count = 2\<rparr>]"

section \<open>Facts about the string functions\<close>

lemma HasPrefix_iff_prefix: "HasPrefix s pre \<longleftrightarrow> prefix pre s"
  unfolding HasPrefix_def
  by (metis append_eq_conv_conj prefix_def prefix_length_le take_is_prefix)

lemma HasSuffix_iff_suffix: "HasSuffix s suf \<longleftrightarrow> suffix suf s"
  unfolding HasSuffix_def
  by (metis suffix_drop suffix_length_le suffix_take append_take_drop_id append_eq_conv_conj)

lemma length_TrimPrefix:
  "length (TrimPrefix s pre) = (if prefix pre s then length s - length pre else length s)"
  by (simp add: TrimPrefix_def HasPrefix_iff_prefix)

lemma TrimPrefix_shortens_iff:
  "length (TrimPrefix s pre) < length s \<longleftrightarrow> pre \<noteq> [] \<and> prefix pre s"
  using prefix_length_le [of pre s] by (cases pre) (auto simp: length_TrimPrefix)

lemma TrimPrefix_keeps_length_iff:
  "length (TrimPrefix s pre) = length s \<longleftrightarrow> pre = [] \<or> \<not> prefix pre s"
  using prefix_length_le [of pre s] by (cases pre) (auto simp: length_TrimPrefix)

section \<open>What the filter loops compute\<close>

lemma anyAllowedExt_iff:
  "anyAllowedExt path exts \<longleftrightarrow> (\<exists>ext\<in>set exts. HasSuffix path ext)"
  by (induction exts) auto

lemma passesIgnoredExt_iff:
  "passesIgnoredExt passes path exts \<longleftrightarrow>
     passes \<and> (\<forall>ext\<in>set exts. \<not> HasSuffix path ext)"
  by (induction exts arbitrary: passes) auto

lemma anyAllowedPath_iff:
  "anyAllowedPath path pLen pres \<longleftrightarrow>
     (\<exists>pre\<in>set pres. length (TrimPrefix path pre) < pLen)"
  by (induction pres) auto

lemma passesIgnoredPath_iff:
  "passesIgnoredPath passes path pLen pres \<longleftrightarrow>
     passes \<and> (\<forall>pre\<in>set pres. length (TrimPrefix path pre) = pLen)"
  by (induction pres arbitrary: passes) auto

lemma considerPath_only_iff:
  "OnlyPaths opts \<noteq> [] \<Longrightarrow>
     considerPath path opts \<longleftrightarrow>
       (\<exists>pre\<in>set (OnlyPaths opts). length (TrimPrefix path pre) < length path)"
  by (simp add: considerPath_def Let_def anyAllowedPath_iff)

lemma considerPath_ignored_iff:
  "OnlyPaths opts = [] \<Longrightarrow>
     considerPath path opts \<longleftrightarrow>
       (\<forall>pre\<in>set (IgnoredPaths opts). length (TrimPrefix path pre) = length path)"
  by (simp add: considerPath_def Let_def passesIgnoredPath_iff)

lemma length_TrimPrefix_Nil: "length (TrimPrefix path []) = length path"
  by (simp add: TrimPrefix_def)

section \<open>The extension filter\<close>

text \<open>
  Claim C6. When \<open>onlyExtensions\<close> is non-empty, \<open>considerExt\<close> accepts a path
  exactly when the path ends with one of its entries. Neither \<open>ignoredExtensions\<close>
  nor the built-in defaults occur on the right-hand side: they have no say.
\<close>

theorem considerExt_only_exclusive:
  assumes "OnlyExtensions opts \<noteq> []"
  shows "considerExt path opts \<longleftrightarrow> (\<exists>ext\<in>set (OnlyExtensions opts). HasSuffix path ext)"
proof -
  from assms have "0 < length (OnlyExtensions opts)" by simp
  then show ?thesis
    by (simp add: considerExt_def Let_def anyAllowedExt_iff)
qed

theorem considerExt_only_exclusive_witness:
  "OnlyExtensions \<lparr>ShowFiles = False, Verbose = False, Since = [],
       IgnoredExtensions = [''go''], OnlyExtensions = [''go'', ''md''],
       IgnoredPaths = [], OnlyPaths = []\<rparr> \<noteq> []
   \<and> considerExt ''main.go'' \<lparr>ShowFiles = False, Verbose = False, Since = [],
       IgnoredExtensions = [''go''], OnlyExtensions = [''go'', ''md''],
       IgnoredPaths = [], OnlyPaths = []\<rparr>
   \<and> \<not> considerExt ''data.json'' \<lparr>ShowFiles = False, Verbose = False, Since = [],
       IgnoredExtensions = [''go''], OnlyExtensions = [''go'', ''md''],
       IgnoredPaths = [], OnlyPaths = []\<rparr>"
  using
    considerExt_only_exclusive [of "\<lparr>ShowFiles = False, Verbose = False, Since = [],
       IgnoredExtensions = [''go''], OnlyExtensions = [''go'', ''md''],
       IgnoredPaths = [], OnlyPaths = []\<rparr>" "''main.go''"]
    considerExt_only_exclusive [of "\<lparr>ShowFiles = False, Verbose = False, Since = [],
       IgnoredExtensions = [''go''], OnlyExtensions = [''go'', ''md''],
       IgnoredPaths = [], OnlyPaths = []\<rparr>" "''data.json''"]
  by (simp add: HasSuffix_def)

text \<open>
  Claim C7. With the four filter lists empty, the effective ignore-list of
  \<open>considerExt\<close> is the built-in one, \<open>svg\<close>, \<open>json\<close>, \<open>nock\<close>, \<open>xml\<close>; the two
  filters together accept \<open>a.go\<close> and \<open>vendor/c.go\<close> and reject \<open>b.json\<close>. The
  other three fields of the options are arbitrary.
\<close>

theorem no_filters_scenario:
  "defaultIgnoreExt @ IgnoredExtensions \<lparr>ShowFiles = sf, Verbose = vb, Since = sn,
       IgnoredExtensions = [], OnlyExtensions = [], IgnoredPaths = [], OnlyPaths = []\<rparr>
     = [''svg'', ''json'', ''nock'', ''xml'']
   \<and> (considerExt ''a.go'' \<lparr>ShowFiles = sf, Verbose = vb, Since = sn,
       IgnoredExtensions = [], OnlyExtensions = [], IgnoredPaths = [], OnlyPaths = []\<rparr>
     \<and> considerPath ''a.go'' \<lparr>ShowFiles = sf, Verbose = vb, Since = sn,
       IgnoredExtensions = [], OnlyExtensions = [], IgnoredPaths = [], OnlyPaths = []\<rparr>)
   \<and> \<not> (considerExt ''b.json'' \<lparr>ShowFiles = sf, Verbose = vb, Since = sn,
       IgnoredExtensions = [], OnlyExtensions = [], IgnoredPaths = [], OnlyPaths = []\<rparr>
     \<and> considerPath ''b.json'' \<lparr>ShowFiles = sf, Verbose = vb, Since = sn,
       IgnoredExtensions = [], OnlyExtensions = [], IgnoredPaths = [], OnlyPaths = []\<rparr>)
   \<and> (considerExt ''vendor/c.go'' \<lparr>ShowFiles = sf, Verbose = vb, Since = sn,
       IgnoredExtensions = [], OnlyExtensions = [], IgnoredPaths = [], OnlyPaths = []\<rparr>
     \<and> considerPath ''vendor/c.go'' \<lparr>ShowFiles = sf, Verbose = vb, Since = sn,
       IgnoredExtensions = [], OnlyExtensions = [], IgnoredPaths = [], OnlyPaths = []\<rparr>)"
  by (simp add: considerExt_def considerPath_def defaultIgnoreExt_def HasSuffix_def)

section \<open>The path filter\<close>

text \<open>
  Claim C1, as the specification states it: with a non-empty \<open>onlyPaths\<close>, a path is
  accepted exactly when an entry is a strict prefix of it, so that a path equal to an
  entry is rejected. It fails for the path \<open>src\<close> and the single entry \<open>src\<close>:
  removing the prefix leaves the empty string, which is shorter than the path, and
  \<open>considerPath\<close> accepts.
\<close>

theorem considerPath_exact_match_counterexample:
  "OnlyPaths onlySrc = [''src'']
   \<and> considerPath ''src'' onlySrc
   \<and> \<not> (\<exists>pre\<in>set (OnlyPaths onlySrc). strict_prefix pre ''src'')"
  by (simp add: onlySrc_def considerPath_def TrimPrefix_def HasPrefix_def)

text \<open>
  Claim C1, amended. With a non-empty \<open>onlyPaths\<close>, \<open>considerPath\<close> accepts a path
  exactly when some non-empty entry of \<open>onlyPaths\<close> is a prefix of it, the whole
  path included: a non-empty path that is itself an entry is accepted.
\<close>

theorem considerPath_only_nonempty_prefix:
  assumes "OnlyPaths opts \<noteq> []"
  shows "(considerPath path opts \<longleftrightarrow>
            (\<exists>pre\<in>set (OnlyPaths opts). pre \<noteq> [] \<and> prefix pre path))
         \<and> (path \<noteq> [] \<and> path \<in> set (OnlyPaths opts) \<longrightarrow> considerPath path opts)"
proof -
  have iff: "considerPath path opts \<longleftrightarrow>
      (\<exists>pre\<in>set (OnlyPaths opts). pre \<noteq> [] \<and> prefix pre path)"
    using assms by (simp add: considerPath_only_iff TrimPrefix_shortens_iff)
  moreover have "considerPath path opts" if "path \<noteq> []" "path \<in> set (OnlyPaths opts)"
    using that iff by auto
  ultimately show ?thesis by blast
qed

theorem considerPath_only_nonempty_prefix_witness:
  "OnlyPaths \<lparr>ShowFiles = False, Verbose = False, Since = [],
       IgnoredExtensions = [], OnlyExtensions = [],
       IgnoredPaths = [], OnlyPaths = [[], ''src'']\<rparr> \<noteq> []
   \<and> considerPath ''src/main.go'' \<lparr>ShowFiles = False, Verbose = False, Since = [],
       IgnoredExtensions = [], OnlyExtensions = [],
       IgnoredPaths = [], OnlyPaths = [[], ''src'']\<rparr>
   \<and> considerPath ''src'' \<lparr>ShowFiles = False, Verbose = False, Since = [],
       IgnoredExtensions = [], OnlyExtensions = [],
       IgnoredPaths = [], OnlyPaths = [[], ''src'']\<rparr>
   \<and> \<not> considerPath ''docs/a.md'' \<lparr>ShowFiles = False, Verbose = False, Since = [],
       IgnoredExtensions = [], OnlyExtensions = [],
       IgnoredPaths = [], OnlyPaths = [[], ''src'']\<rparr>"
  using
    considerPath_only_nonempty_prefix [of "\<lparr>ShowFiles = False, Verbose = False, Since = [],
       IgnoredExtensions = [], OnlyExtensions = [],
       IgnoredPaths = [], OnlyPaths = [[], ''src'']\<rparr>" "''src/main.go''"]
    considerPath_only_nonempty_prefix [of "\<lparr>ShowFiles = False, Verbose = False, Since = [],
       IgnoredExtensions = [], OnlyExtensions = [],
       IgnoredPaths = [], OnlyPaths = [[], ''src'']\<rparr>" "''src''"]
    considerPath_only_nonempty_prefix [of "\<lparr>ShowFiles = False, Verbose = False, Since = [],
       IgnoredExtensions = [], OnlyExtensions = [],
       IgnoredPaths = [], OnlyPaths = [[], ''src'']\<rparr>" "''docs/a.md''"]
  by simp

text \<open>
  Claim C10. An empty string among the path filter entries is inert. Removing the
  empty prefix leaves the length of the path as it is. Hence deleting the empty
  entries from \<open>ignoredPaths\<close> never changes the verdict; deleting them from
  \<open>onlyPaths\<close> does not change it as long as an entry remains; and when \<open>onlyPaths\<close>
  holds nothing but empty strings, no path is accepted.
\<close>

theorem considerPath_empty_entry_inert:
  "length (TrimPrefix path []) = length path
   \<and> considerPath path (opts\<lparr>IgnoredPaths := removeAll [] (IgnoredPaths opts)\<rparr>)
       = considerPath path opts
   \<and> (removeAll [] (OnlyPaths opts) \<noteq> [] \<longrightarrow>
        considerPath path (opts\<lparr>OnlyPaths := removeAll [] (OnlyPaths opts)\<rparr>)
          = considerPath path opts)
   \<and> (OnlyPaths opts \<noteq> [] \<and> removeAll [] (OnlyPaths opts) = [] \<longrightarrow>
        \<not> considerPath path opts)"
proof (intro conjI impI)
  show "length (TrimPrefix path []) = length path"
    by (rule length_TrimPrefix_Nil)
next
  show "considerPath path (opts\<lparr>IgnoredPaths := removeAll [] (IgnoredPaths opts)\<rparr>)
      = considerPath path opts"
  proof (cases "OnlyPaths opts = []")
    case True
    then show ?thesis
      by (auto simp: considerPath_ignored_iff length_TrimPrefix_Nil)
  next
    case False
    then show ?thesis
      by (simp add: considerPath_only_iff)
  qed
next
  assume rest: "removeAll [] (OnlyPaths opts) \<noteq> []"
  then have "OnlyPaths opts \<noteq> []" by auto
  with rest show "considerPath path (opts\<lparr>OnlyPaths := removeAll [] (OnlyPaths opts)\<rparr>)
      = considerPath path opts"
    by (auto simp: considerPath_only_iff length_TrimPrefix_Nil)
next
  assume only_empty: "OnlyPaths opts \<noteq> [] \<and> removeAll [] (OnlyPaths opts) = []"
  then have "set (OnlyPaths opts) - {[]} = {}"
    by (metis set_removeAll set_empty)
  then have "\<forall>pre\<in>set (OnlyPaths opts). pre = []" by auto
  with only_empty show "\<not> considerPath path opts"
    by (auto simp: considerPath_only_iff length_TrimPrefix_Nil)
qed

theorem considerPath_empty_entry_inert_witness:
  "considerPath ''a.go'' \<lparr>ShowFiles = False, Verbose = False, Since = [],
       IgnoredExtensions = [], OnlyExtensions = [],
       IgnoredPaths = [[]], OnlyPaths = []\<rparr>
   \<and> \<not> considerPath ''a.go'' \<lparr>ShowFiles = False, Verbose = False, Since = [],
       IgnoredExtensions = [], OnlyExtensions = [],
       IgnoredPaths = [], OnlyPaths = [[]]\<rparr>
   \<and> considerPath ''a.go'' \<lparr>ShowFiles = False, Verbose = False, Since = [],
       IgnoredExtensions = [], OnlyExtensions = [],
       IgnoredPaths = [], OnlyPaths = [[], ''a'']\<rparr>"
proof -
  have ign: "considerPath ''a.go'' \<lparr>ShowFiles = False, Verbose = False, Since = [],
       IgnoredExtensions = [], OnlyExtensions = [], IgnoredPaths = [], OnlyPaths = []\<rparr>"
    by (simp add: considerPath_def)
  have only: "considerPath ''a.go'' \<lparr>ShowFiles = False, Verbose = False, Since = [],
       IgnoredExtensions = [], OnlyExtensions = [], IgnoredPaths = [], OnlyPaths = [''a'']\<rparr>"
    by (simp add: considerPath_def TrimPrefix_def HasPrefix_def)
  show ?thesis
    using ign only
      considerPath_empty_entry_inert [of "''a.go''" "\<lparr>ShowFiles = False, Verbose = False,
         Since = [], IgnoredExtensions = [], OnlyExtensions = [],
         IgnoredPaths = [[]], OnlyPaths = []\<rparr>"]
      considerPath_empty_entry_inert [of "''a.go''" "\<lparr>ShowFiles = False, Verbose = False,
         Since = [], IgnoredExtensions = [], OnlyExtensions = [],
         IgnoredPaths = [], OnlyPaths = [[]]\<rparr>"]
      considerPath_empty_entry_inert [of "''a.go''" "\<lparr>ShowFiles = False, Verbose = False,
         Since = [], IgnoredExtensions = [], OnlyExtensions = [],
         IgnoredPaths = [], OnlyPaths = [[], ''a'']\<rparr>"]
    by simp
qed

section \<open>Accumulation with AddToSet\<close>

lemma AddToSet_absent: "Reviewer v \<notin> Reviewer ` set s \<Longrightarrow> AddToSet s v = s @ [v]"
  by (induction s) auto

lemma length_AddToSet_present:
  "Reviewer v \<in> Reviewer ` set s \<Longrightarrow> length (AddToSet s v) = length s"
  by (induction s) auto

lemma AddToSet_nth_other:
  "i < length s \<Longrightarrow> Reviewer (s ! i) \<noteq> Reviewer v \<Longrightarrow> AddToSet s v ! i = s ! i"
proof (induction s arbitrary: i)
  case Nil
  then show ?case by simp
next
  case (Cons a s)
  then show ?case by (cases i) auto
qed

lemma reviewers_AddToSet:
  "Reviewer ` set (AddToSet s v) = insert (Reviewer v) (Reviewer ` set s)"
  by (induction s) auto

lemma distinct_AddToSet:
  "distinct (map Reviewer s) \<Longrightarrow> distinct (map Reviewer (AddToSet s v))"
proof (induction s)
  case Nil
  then show ?case by simp
next
  case (Cons a s)
  then show ?case using reviewers_AddToSet [of s v] by auto
qed

lemma totals_AddToSet:
  "totals (AddToSet s v) =
     (totals s)(Reviewer v \<mapsto>
        (case totals s (Reviewer v) of None \<Rightarrow> Count v | Some c \<Rightarrow> c + Count v))"
  by (induction s) (auto simp: totals_def fun_eq_iff)

lemma totals_foldl_AddToSet:
  "totals (foldl AddToSet s xs) r =
     (if r \<in> Reviewer ` set xs \<or> totals s r \<noteq> None
      then Some ((case totals s r of None \<Rightarrow> 0 | Some c \<Rightarrow> c)
                 + sum_list (map Count (filter (\<lambda>x. Reviewer x = r) xs)))
      else None)"
proof (induction xs arbitrary: s)
  case Nil
  then show ?case by (auto split: option.splits)
next
  case (Cons x xs)
  show ?case
    by (simp add: Cons.IH totals_AddToSet split: option.splits)
qed

lemma distinct_foldl_AddToSet:
  "distinct (map Reviewer s) \<Longrightarrow> distinct (map Reviewer (foldl AddToSet s xs))"
  by (induction xs arbitrary: s) (auto simp: distinct_AddToSet)

lemma sum_list_filter_mset:
  "sum_list (map f (filter P xs)) = sum_mset (image_mset f (filter_mset P (mset xs)))"
  by (induction xs) auto

text \<open>
  Claim C9. \<open>AddToSet s v\<close> leaves every entry of \<open>s\<close> with another reviewer where
  it is and as it is. When the reviewer of \<open>v\<close> has an entry in \<open>s\<close>, the length
  stays; otherwise the result is \<open>s\<close> with \<open>v\<close> appended at the end.
\<close>

theorem AddToSet_frame:
  "(\<forall>i<length s. Reviewer (s ! i) \<noteq> Reviewer v \<longrightarrow> AddToSet s v ! i = s ! i)
   \<and> (if Reviewer v \<in> Reviewer ` set s
      then length (AddToSet s v) = length s
      else AddToSet s v = s @ [v] \<and> length (AddToSet s v) = length s + 1)"
proof -
  have "AddToSet s v = s @ [v] \<and> length (AddToSet s v) = length s + 1"
    if "Reviewer v \<notin> Reviewer ` set s"
    using AddToSet_absent [OF that] by simp
  then show ?thesis
    by (simp add: AddToSet_nth_other length_AddToSet_present)
qed

theorem AddToSet_frame_witness:
  "AddToSet [\<lparr>Reviewer = ''alice'', Count = 2\<rparr>, \<lparr>Reviewer = ''bob'', Count = 1\<rparr>]
       \<lparr>Reviewer = ''bob'', Count = 4\<rparr> ! 0 = \<lparr>Reviewer = ''alice'', Count = 2\<rparr>
   \<and> length (AddToSet [\<lparr>Reviewer = ''alice'', Count = 2\<rparr>, \<lparr>Reviewer = ''bob'', Count = 1\<rparr>]
       \<lparr>Reviewer = ''bob'', Count = 4\<rparr>) = 2
   \<and> AddToSet [\<lparr>Reviewer = ''alice'', Count = 2\<rparr>, \<lparr>Reviewer = ''bob'', Count = 1\<rparr>]
       \<lparr>Reviewer = ''carol'', Count = 4\<rparr>
     = [\<lparr>Reviewer = ''alice'', Count = 2\<rparr>, \<lparr>Reviewer = ''bob'', Count = 1\<rparr>,
        \<lparr>Reviewer = ''carol'', Count = 4\<rparr>]"
  using
    AddToSet_frame [of "[\<lparr>Reviewer = ''alice'', Count = 2\<rparr>, \<lparr>Reviewer = ''bob'', Count = 1\<rparr>]"
      "\<lparr>Reviewer = ''bob'', Count = 4\<rparr>"]
    AddToSet_frame [of "[\<lparr>Reviewer = ''alice'', Count = 2\<rparr>, \<lparr>Reviewer = ''bob'', Count = 1\<rparr>]"
      "\<lparr>Reviewer = ''carol'', Count = 4\<rparr>"]
  by simp

text \<open>
  Claim C3. Two lists holding the same multiset of stats, accumulated by \<open>AddToSet\<close>
  from the empty collection, give the same reviewer-to-count totals. A reviewer has
  a total exactly when a stat bears it, and the total is the sum (Go's \<open>+\<close> on
  \<open>int\<close>) of the counts of the stats bearing it. No two entries of the collection
  have the same reviewer.
\<close>

theorem AddToSet_order_independent:
  assumes "mset xs = mset ys"
  shows "totals (foldl AddToSet [] xs) = totals (foldl AddToSet [] ys)
   \<and> (\<forall>r. totals (foldl AddToSet [] xs) r =
         (if r \<in> Reviewer ` set xs
          then Some (sum_list (map Count (filter (\<lambda>x. Reviewer x = r) xs)))
          else None))
   \<and> distinct (map Reviewer (foldl AddToSet [] xs))"
proof -
  have tot: "totals (foldl AddToSet [] zs) r =
         (if r \<in> Reviewer ` set zs
          then Some (sum_list (map Count (filter (\<lambda>x. Reviewer x = r) zs)))
          else None)" for zs r
    by (simp add: totals_foldl_AddToSet) (simp add: totals_def)
  have "set xs = set ys"
    using assms by (rule mset_eq_setD)
  moreover have "sum_list (map Count (filter P xs)) = sum_list (map Count (filter P ys))" for P
    by (simp add: sum_list_filter_mset assms)
  ultimately have "totals (foldl AddToSet [] xs) r = totals (foldl AddToSet [] ys) r" for r
    by (simp add: tot)
  then have "totals (foldl AddToSet [] xs) = totals (foldl AddToSet [] ys)"
    by (rule ext)
  moreover have "distinct (map Reviewer (foldl AddToSet [] xs))"
    by (rule distinct_foldl_AddToSet) simp
  ultimately show ?thesis
    using tot by blast
qed

theorem AddToSet_order_independent_witness:
  "mset [\<lparr>Reviewer = ''alice'', Count = 2\<rparr>, \<lparr>Reviewer = ''bob'', Count = 1\<rparr>,
         \<lparr>Reviewer = ''alice'', Count = 1\<rparr>]
     = mset [\<lparr>Reviewer = ''bob'', Count = 1\<rparr>, \<lparr>Reviewer = ''alice'', Count = 1\<rparr>,
             \<lparr>Reviewer = ''alice'', Count = 2\<rparr>]
   \<and> foldl AddToSet [] [\<lparr>Reviewer = ''alice'', Count = 2\<rparr>, \<lparr>Reviewer = ''bob'', Count = 1\<rparr>,
         \<lparr>Reviewer = ''alice'', Count = 1\<rparr>]
     = [\<lparr>Reviewer = ''alice'', Count = 3\<rparr>, \<lparr>Reviewer = ''bob'', Count = 1\<rparr>]
   \<and> foldl AddToSet [] [\<lparr>Reviewer = ''bob'', Count = 1\<rparr>, \<lparr>Reviewer = ''alice'', Count = 1\<rparr>,
         \<lparr>Reviewer = ''alice'', Count = 2\<rparr>]
     = [\<lparr>Reviewer = ''bob'', Count = 1\<rparr>, \<lparr>Reviewer = ''alice'', Count = 3\<rparr>]
   \<and> totals (foldl AddToSet [] [\<lparr>Reviewer = ''alice'', Count = 2\<rparr>,
         \<lparr>Reviewer = ''bob'', Count = 1\<rparr>, \<lparr>Reviewer = ''alice'', Count = 1\<rparr>])
     = totals (foldl AddToSet [] [\<lparr>Reviewer = ''bob'', Count = 1\<rparr>,
         \<lparr>Reviewer = ''alice'', Count = 1\<rparr>, \<lparr>Reviewer = ''alice'', Count = 2\<rparr>])"
proof -
  have perm: "mset [\<lparr>Reviewer = ''alice'', Count = 2\<rparr>, \<lparr>Reviewer = ''bob'', Count = 1\<rparr>,
         \<lparr>Reviewer = ''alice'', Count = 1\<rparr>]
     = mset [\<lparr>Reviewer = ''bob'', Count = 1\<rparr>, \<lparr>Reviewer = ''alice'', Count = 1\<rparr>,
             \<lparr>Reviewer = ''alice'', Count = 2\<rparr>]"
    by (simp add: add_mset_commute)
  show ?thesis
    using perm AddToSet_order_independent [OF perm] by simp
qed

section \<open>The sorting procedure meets the contract\<close>

lemma Reverse_Less_iff:
  "sort_Reverse Stats_Less s i j \<longleftrightarrow> sint (Count (s ! j)) < sint (Count (s ! i))"
  by (simp add: sort_Reverse_def Stats_Less_def word_sless_alt)

lemma Stats_Swap_adjacent:
  "Stats_Swap (pre @ p # x # rest) (Suc (length pre)) (length pre) = pre @ x # p # rest"
  by (simp add: Stats_Swap_def list_update_append nth_append)

lemma mset_Stats_Swap:
  "i < length s \<Longrightarrow> j < length s \<Longrightarrow> mset (Stats_Swap s i j) = mset s"
  unfolding Stats_Swap_def by (rule mset_swap)

lemma insertionSort_inner_sorted:
  assumes "sorted_wrt (\<lambda>a b. sint (Count b) \<le> sint (Count a)) (pre @ mid)"
    and "\<forall>y\<in>set mid. sint (Count y) \<le> sint (Count x)"
  shows "\<exists>pre'. insertionSort_inner (sort_Reverse Stats_Less) (pre @ x # mid @ post) (length pre)
             = pre' @ mid @ post
           \<and> mset pre' = add_mset x (mset pre)
           \<and> sorted_wrt (\<lambda>a b. sint (Count b) \<le> sint (Count a)) (pre' @ mid)"
  using assms
proof (induction pre arbitrary: mid rule: rev_induct)
  case Nil
  then show ?case
    by (intro exI [of _ "[x]"]) simp
next
  case (snoc p pre)
  let ?s = "(pre @ [p]) @ x # mid @ post"
  have s_eq: "?s = pre @ p # x # mid @ post" by simp
  have lt: "sort_Reverse Stats_Less ?s (Suc (length pre)) (length pre)
      \<longleftrightarrow> sint (Count p) < sint (Count x)"
    by (simp add: Reverse_Less_iff nth_append)
  show ?case
  proof (cases "sint (Count p) < sint (Count x)")
    case True
    have srt: "sorted_wrt (\<lambda>a b. sint (Count b) \<le> sint (Count a)) (pre @ p # mid)"
      using snoc.prems(1) by simp
    have below: "\<forall>y\<in>set (p # mid). sint (Count y) \<le> sint (Count x)"
      using snoc.prems(2) True by simp
    from snoc.IH [OF srt below] obtain pre' where
      res: "insertionSort_inner (sort_Reverse Stats_Less) (pre @ x # (p # mid) @ post) (length pre)
              = pre' @ (p # mid) @ post"
      and ms: "mset pre' = add_mset x (mset pre)"
      and so: "sorted_wrt (\<lambda>a b. sint (Count b) \<le> sint (Count a)) (pre' @ p # mid)"
      by blast
    have "insertionSort_inner (sort_Reverse Stats_Less) ?s (length (pre @ [p]))
        = insertionSort_inner (sort_Reverse Stats_Less) (pre @ x # p # mid @ post) (length pre)"
      using lt True by (simp add: s_eq Stats_Swap_adjacent del: append_assoc)
    also have "\<dots> = (pre' @ [p]) @ mid @ post"
      using res by simp
    finally show ?thesis
      using ms so by (intro exI [of _ "pre' @ [p]"]) simp
  next
    case False
    then have stay: "insertionSort_inner (sort_Reverse Stats_Less) ?s (length (pre @ [p])) = ?s"
      using lt by simp
    have "sorted_wrt (\<lambda>a b. sint (Count b) \<le> sint (Count a)) ((pre @ [p, x]) @ mid)"
      using snoc.prems False by (fastforce simp: sorted_wrt_append)
    then show ?thesis
      using stay by (intro exI [of _ "pre @ [p, x]"]) simp
  qed
qed


lemma insertionSort_loop:
  assumes "n \<le> length s"
  shows "mset (foldl (insertionSort_inner (sort_Reverse Stats_Less)) s [1..<n]) = mset s
       \<and> sorted_wrt (\<lambda>a b. sint (Count b) \<le> sint (Count a))
            (take n (foldl (insertionSort_inner (sort_Reverse Stats_Less)) s [1..<n]))"
  using assms
proof (induction n)
  case 0
  then show ?case by simp
next
  case (Suc m)
  show ?case
  proof (cases "m = 0")
    case True
    then show ?thesis by (cases s) simp_all
  next
    case False
    define t where "t = foldl (insertionSort_inner (sort_Reverse Stats_Less)) s [1..<m]"
    from Suc have ms: "mset t = mset s"
      and so: "sorted_wrt (\<lambda>a b. sint (Count b) \<le> sint (Count a)) (take m t)"
      by (simp_all add: t_def)
    from ms have len: "length t = length s" by (rule mset_eq_length)
    with Suc.prems have m: "m < length t" by simp
    then have split: "t = take m t @ t ! m # [] @ drop (Suc m) t"
      by (simp add: id_take_nth_drop)
    from so have so': "sorted_wrt (\<lambda>a b. sint (Count b) \<le> sint (Count a)) (take m t @ [])"
      by simp
    from insertionSort_inner_sorted [OF so', of "t ! m" "drop (Suc m) t"]
    obtain pre' where
      res: "insertionSort_inner (sort_Reverse Stats_Less)
              (take m t @ t ! m # [] @ drop (Suc m) t) (length (take m t))
              = pre' @ [] @ drop (Suc m) t"
      and mp: "mset pre' = add_mset (t ! m) (mset (take m t))"
      and sp: "sorted_wrt (\<lambda>a b. sint (Count b) \<le> sint (Count a)) (pre' @ [])"
      by auto
    have lm: "length (take m t) = m" using m by simp
    from res have res': "insertionSort_inner (sort_Reverse Stats_Less) t m = pre' @ drop (Suc m) t"
      using split lm by simp
    have "size (mset pre') = Suc m"
      using mp m by simp
    then have lp: "length pre' = Suc m" by simp
    have step: "foldl (insertionSort_inner (sort_Reverse Stats_Less)) s [1..<Suc m]
        = pre' @ drop (Suc m) t"
      using False res' by (simp add: t_def)
    have "mset (pre' @ drop (Suc m) t) = mset (take m t @ t ! m # drop (Suc m) t)"
      using mp by simp
    also have "\<dots> = mset t" using split by simp
    finally have "mset (pre' @ drop (Suc m) t) = mset s" using ms by simp
    moreover have "take (Suc m) (pre' @ drop (Suc m) t) = pre'" using lp by simp
    ultimately show ?thesis using sp step by simp
  qed
qed

lemma insertionSort_sorts:
  "mset (insertionSort (sort_Reverse Stats_Less) s) = mset s
   \<and> sorted_wrt (\<lambda>a b. sint (Count b) \<le> sint (Count a)) (insertionSort (sort_Reverse Stats_Less) s)"
proof -
  let ?t = "foldl (insertionSort_inner (sort_Reverse Stats_Less)) s [1..<length s]"
  from insertionSort_loop [of "length s" s]
  have ms: "mset ?t = mset s"
    and so: "sorted_wrt (\<lambda>a b. sint (Count b) \<le> sint (Count a)) (take (length s) ?t)"
    by simp_all
  from ms have "length ?t = length s" by (rule mset_eq_length)
  with so have "sorted_wrt (\<lambda>a b. sint (Count b) \<le> sint (Count a)) ?t" by simp
  with ms show ?thesis by (simp add: insertionSort_def Stats_Len_def)
qed

lemma mset_shell_steps:
  "\<forall>i\<in>set is. i < length s \<Longrightarrow>
     mset (foldl (\<lambda>d i. if lt d i (i - 6) then Stats_Swap d i (i - 6) else d) s is) = mset s"
proof (induction "is" arbitrary: s)
  case Nil
  then show ?case by simp
next
  case (Cons i "is")
  let ?d = "if lt s i (i - 6) then Stats_Swap s i (i - 6) else s"
  have i: "i < length s" using Cons.prems by simp
  then have ms: "mset ?d = mset s" by (simp add: mset_Stats_Swap)
  then have "length ?d = length s" by (rule mset_eq_length)
  with Cons.prems have "\<forall>j\<in>set is. j < length ?d" by simp
  from Cons.IH [OF this] ms show ?case by simp
qed

lemma mset_shellPass: "mset (shellPass lt s) = mset s"
  unfolding shellPass_def Stats_Len_def by (rule mset_shell_steps) simp

lemma sort_Sort_small_sorts:
  "mset (sort_Sort_small (sort_Reverse Stats_Less) s) = mset s
   \<and> sorted_wrt (\<lambda>a b. sint (Count b) \<le> sint (Count a))
        (sort_Sort_small (sort_Reverse Stats_Less) s)"
proof (cases "1 < length s")
  case True
  then show ?thesis
    using insertionSort_sorts [of "shellPass (sort_Reverse Stats_Less) s"]
    by (simp add: sort_Sort_small_def Stats_Len_def mset_shellPass)
next
  case False
  then have "length s \<le> 1" by simp
  then have "sorted_wrt (\<lambda>a b. sint (Count b) \<le> sint (Count a)) s"
    by (cases s) auto
  with False show ?thesis
    by (simp add: sort_Sort_small_def Stats_Len_def)
qed

lemma sort_Sort_small_contract: "sort_Sort_contract (sort_Reverse Stats_Less) sort_Sort_small"
  unfolding sort_Sort_contract_def
proof (intro allI conjI impI)
  fix s :: Stats
  show "mset (sort_Sort_small (sort_Reverse Stats_Less) s) = mset s"
    using sort_Sort_small_sorts by blast
next
  fix s :: Stats and i j
  assume ij: "i < j \<and> j < length s"
  let ?t = "sort_Sort_small (sort_Reverse Stats_Less) s"
  have so: "sorted_wrt (\<lambda>a b. sint (Count b) \<le> sint (Count a)) ?t"
    using sort_Sort_small_sorts [of s] by blast
  have "length ?t = length s"
    using sort_Sort_small_sorts [of s] by (metis mset_eq_length)
  with ij have "i < j" "j < length ?t" by simp_all
  with so have "sint (Count (?t ! j)) \<le> sint (Count (?t ! i))"
    by (rule sorted_wrt_nth_less)
  then show "\<not> sort_Reverse Stats_Less ?t j i"
    by (simp add: Reverse_Less_iff)
qed

section \<open>Merging, ranking and the reviewers returned\<close>

lemma mergeStats_foldl:
  "mergeStats finalStats stats
     = foldl AddToSet finalStats (filter (\<lambda>stat. length (Reviewer stat) > 0) stats)"
  by (induction stats arbitrary: finalStats) simp_all

lemma drain_foldl:
  "drain finalStats data
     = foldl AddToSet finalStats (filter (\<lambda>stat. length (Reviewer stat) > 0) (concat data))"
  by (induction data arbitrary: finalStats) (simp_all add: mergeStats_foldl)

lemma distinct_drain: "distinct (map Reviewer (drain [] data))"
  by (simp add: drain_foldl distinct_foldl_AddToSet)

lemma card_reviewers_distinct:
  "distinct (map Reviewer s) \<Longrightarrow> card (Reviewer ` set s) = length s"
  using distinct_card [of "map Reviewer s"] by simp

lemma contract_rankStats:
  assumes "sort_Sort_contract (sort_Reverse Stats_Less) srt"
  shows "mset (rankStats srt s) = mset s"
    and "length (rankStats srt s) = length s"
    and "sorted_wrt (\<lambda>a b. sint (Count b) \<le> sint (Count a)) (rankStats srt s)"
proof -
  let ?t = "srt (sort_Reverse Stats_Less) s"
  from assms have ms: "mset ?t = mset s"
    and so: "\<And>i j. i < j \<Longrightarrow> j < length s \<Longrightarrow> \<not> sort_Reverse Stats_Less ?t j i"
    by (simp_all add: sort_Sort_contract_def)
  from ms show "mset (rankStats srt s) = mset s"
    by (simp add: rankStats_def)
  from ms have len: "length ?t = length s"
    by (rule mset_eq_length)
  then show "length (rankStats srt s) = length s"
    by (simp add: rankStats_def)
  have "sorted_wrt (\<lambda>a b. sint (Count b) \<le> sint (Count a)) ?t"
    unfolding sorted_wrt_iff_nth_less
  proof (intro allI impI)
    fix i j
    assume "i < j" "j < length ?t"
    with len so [of i j] show "sint (Count (?t ! j)) \<le> sint (Count (?t ! i))"
      by (simp add: Reverse_Less_iff)
  qed
  then show "sorted_wrt (\<lambda>a b. sint (Count b) \<le> sint (Count a)) (rankStats srt s)"
    by (simp add: rankStats_def)
qed

lemma fst_topReviewers:
  "fst (topReviewers srt finalStats) = map Stat_String (take 3 (rankStats srt finalStats))"
  by (simp add: topReviewers_def Let_def)

lemma rankStats_sevenReviewers:
  "rankStats sort_Sort_small sevenReviewers
     = [\<lparr>Reviewer = ''g'', Count = 2\<rparr>, \<lparr>Reviewer = ''b'', Count = 2\<rparr>,
        \<lparr>Reviewer = ''c'', Count = 2\<rparr>, \<lparr>Reviewer = ''d'', Count = 2\<rparr>,
        \<lparr>Reviewer = ''e'', Count = 2\<rparr>, \<lparr>Reviewer = ''f'', Count = 2\<rparr>,
        \<lparr>Reviewer = ''a'', Count = 1\<rparr>]"
  by code_simp

lemma FindReviewers_sevenReviewers:
  "FindReviewers sort_Sort_small [sevenReviewers]
     = ([''  2'' @ CHR 0x09 # ''g'', ''  2'' @ CHR 0x09 # ''b'', ''  2'' @ CHR 0x09 # ''c''],
        None)"
  by code_simp

lemma FindReviewers_three_queries:
  "FindReviewers sort_Sort_small
      [[\<lparr>Reviewer = ''alice'', Count = 2\<rparr>], [],
       [\<lparr>Reviewer = ''bob'', Count = 1\<rparr>, \<lparr>Reviewer = ''alice'', Count = 1\<rparr>]]
     = ([''  3'' @ CHR 0x09 # ''alice'', ''  1'' @ CHR 0x09 # ''bob''], None)"
  by code_simp

text \<open>
  Claim C4. Whatever arrives from the per-path queries, and whichever procedure
  meeting the contract of \<open>sort.Sort\<close> does the sorting: \<open>FindReviewers\<close> returns at
  most three lines; it returns fewer than three exactly when the aggregate holds
  fewer than three distinct reviewers; and the lines are the formatted entries of the
  aggregate in an order of non-increasing count.
\<close>

theorem FindReviewers_top_three:
  assumes "sort_Sort_contract (sort_Reverse Stats_Less) srt"
  shows "length (fst (FindReviewers srt sent)) \<le> 3
     \<and> (length (fst (FindReviewers srt sent)) < 3
          \<longleftrightarrow> card (Reviewer ` set (drain [] (mergeChans sent))) < 3)
     \<and> (\<exists>top. fst (FindReviewers srt sent) = map Stat_String top
           \<and> set top \<subseteq> set (drain [] (mergeChans sent))
           \<and> sorted_wrt (\<lambda>a b. sint (Count b) \<le> sint (Count a)) top)"
proof -
  let ?final = "drain [] (mergeChans sent)"
  let ?top = "take 3 (rankStats srt ?final)"
  have lines: "fst (FindReviewers srt sent) = map Stat_String ?top"
    by (simp add: FindReviewers_def fst_topReviewers)
  have len: "length (rankStats srt ?final) = length ?final"
    using assms by (rule contract_rankStats)
  have card: "card (Reviewer ` set ?final) = length ?final"
    by (rule card_reviewers_distinct) (rule distinct_drain)
  have "set (rankStats srt ?final) = set ?final"
    using contract_rankStats(1) [OF assms] by (rule mset_eq_setD)
  then have sub: "set ?top \<subseteq> set ?final"
    using set_take_subset [of 3 "rankStats srt ?final"] by simp
  have "sorted_wrt (\<lambda>a b. sint (Count b) \<le> sint (Count a)) (rankStats srt ?final)"
    using assms by (rule contract_rankStats)
  then have so: "sorted_wrt (\<lambda>a b. sint (Count b) \<le> sint (Count a)) ?top"
    by (rule sorted_wrt_take)
  have "length (fst (FindReviewers srt sent)) = min (length ?final) 3"
    by (simp add: lines len)
  then have "length (fst (FindReviewers srt sent)) \<le> 3"
    and "length (fst (FindReviewers srt sent)) < 3 \<longleftrightarrow> card (Reviewer ` set ?final) < 3"
    by (auto simp: card)
  with lines sub so show ?thesis by blast
qed

theorem FindReviewers_top_three_witness:
  "sort_Sort_contract (sort_Reverse Stats_Less) sort_Sort_small
   \<and> fst (FindReviewers sort_Sort_small
        [[\<lparr>Reviewer = ''alice'', Count = 2\<rparr>], [],
         [\<lparr>Reviewer = ''bob'', Count = 1\<rparr>, \<lparr>Reviewer = ''alice'', Count = 1\<rparr>]])
       = [''  3'' @ CHR 0x09 # ''alice'', ''  1'' @ CHR 0x09 # ''bob'']
   \<and> card (Reviewer ` set (drain [] (mergeChans
        [[\<lparr>Reviewer = ''alice'', Count = 2\<rparr>], [],
         [\<lparr>Reviewer = ''bob'', Count = 1\<rparr>, \<lparr>Reviewer = ''alice'', Count = 1\<rparr>]]))) < 3"
  using sort_Sort_small_contract
    FindReviewers_top_three [OF sort_Sort_small_contract,
      of "[[\<lparr>Reviewer = ''alice'', Count = 2\<rparr>], [],
           [\<lparr>Reviewer = ''bob'', Count = 1\<rparr>, \<lparr>Reviewer = ''alice'', Count = 1\<rparr>]]"]
  by (simp add: FindReviewers_three_queries)

text \<open>
  Claim C5, as the specification states it: the ranking is by descending count and
  keeps entries of equal count in their order of insertion. \<open>sort.Sort\<close> promises
  no stability, and the procedure \<open>sort_Sort_small\<close> meets its contract and is not
  stable: of the six reviewers with two commits in \<open>sevenReviewers\<close>, \<open>g\<close> was
  inserted last and is ranked first, so that \<open>FindReviewers\<close> reports \<open>g\<close>, \<open>b\<close>,
  \<open>c\<close> where insertion order would give \<open>b\<close>, \<open>c\<close>, \<open>d\<close>.
\<close>

theorem rankStats_stable_counterexample:
  "sort_Sort_contract (sort_Reverse Stats_Less) sort_Sort_small
   \<and> rankStats sort_Sort_small sevenReviewers
       = [\<lparr>Reviewer = ''g'', Count = 2\<rparr>, \<lparr>Reviewer = ''b'', Count = 2\<rparr>,
          \<lparr>Reviewer = ''c'', Count = 2\<rparr>, \<lparr>Reviewer = ''d'', Count = 2\<rparr>,
          \<lparr>Reviewer = ''e'', Count = 2\<rparr>, \<lparr>Reviewer = ''f'', Count = 2\<rparr>,
          \<lparr>Reviewer = ''a'', Count = 1\<rparr>]
   \<and> filter (\<lambda>stat. Count stat = 2) (rankStats sort_Sort_small sevenReviewers)
       \<noteq> filter (\<lambda>stat. Count stat = 2) sevenReviewers
   \<and> fst (FindReviewers sort_Sort_small [sevenReviewers])
       = [''  2'' @ CHR 0x09 # ''g'', ''  2'' @ CHR 0x09 # ''b'', ''  2'' @ CHR 0x09 # ''c'']"
  unfolding rankStats_sevenReviewers FindReviewers_sevenReviewers
  by (simp add: sort_Sort_small_contract sevenReviewers_def)

text \<open>
  Claim C5, amended. With any sorting procedure that meets the contract of
  \<open>sort.Sort\<close>, the ranking is a rearrangement of the aggregate in which the counts
  never increase; where entries of equal count come to stand is left to the
  sorting procedure.
\<close>

theorem rankStats_descending:
  assumes "sort_Sort_contract (sort_Reverse Stats_Less) srt"
  shows "mset (rankStats srt s) = mset s
     \<and> sorted_wrt (\<lambda>a b. sint (Count b) \<le> sint (Count a)) (rankStats srt s)"
  using contract_rankStats(1) [OF assms] contract_rankStats(3) [OF assms] by simp

theorem rankStats_descending_witness:
  "sort_Sort_contract (sort_Reverse Stats_Less) sort_Sort_small
   \<and> rankStats sort_Sort_small
        [\<lparr>Reviewer = ''alice'', Count = 1\<rparr>, \<lparr>Reviewer = ''bob'', Count = 3\<rparr>,
         \<lparr>Reviewer = ''carol'', Count = 2\<rparr>]
       = [\<lparr>Reviewer = ''bob'', Count = 3\<rparr>, \<lparr>Reviewer = ''carol'', Count = 2\<rparr>,
          \<lparr>Reviewer = ''alice'', Count = 1\<rparr>]
   \<and> sorted_wrt (\<lambda>a b. sint (Count b) \<le> sint (Count a))
        (rankStats sort_Sort_small
          [\<lparr>Reviewer = ''alice'', Count = 1\<rparr>, \<lparr>Reviewer = ''bob'', Count = 3\<rparr>,
           \<lparr>Reviewer = ''carol'', Count = 2\<rparr>])"
proof -
  have run: "rankStats sort_Sort_small
        [\<lparr>Reviewer = ''alice'', Count = 1\<rparr>, \<lparr>Reviewer = ''bob'', Count = 3\<rparr>,
         \<lparr>Reviewer = ''carol'', Count = 2\<rparr>]
       = [\<lparr>Reviewer = ''bob'', Count = 3\<rparr>, \<lparr>Reviewer = ''carol'', Count = 2\<rparr>,
          \<lparr>Reviewer = ''alice'', Count = 1\<rparr>]"
    by code_simp
  show ?thesis
    using run sort_Sort_small_contract
      rankStats_descending [OF sort_Sort_small_contract,
        of "[\<lparr>Reviewer = ''alice'', Count = 1\<rparr>, \<lparr>Reviewer = ''bob'', Count = 3\<rparr>,
             \<lparr>Reviewer = ''carol'', Count = 2\<rparr>]"]
    by blast
qed

text \<open>
  Claim C2, as the specification states it: for some input, one in which a per-path
  query fails, \<open>FindReviewers\<close> returns an error that is not \<open>nil\<close>. There is no such
  input: the values on the channels are \<open>Stats\<close>, which carry no error, and the only
  \<open>return\<close> of \<open>FindReviewers\<close> gives \<open>nil\<close>.
\<close>

theorem FindReviewers_error_counterexample:
  "\<not> (\<exists>srt sent. snd (FindReviewers srt sent) \<noteq> None)"
  by (simp add: FindReviewers_def topReviewers_def Let_def)

text \<open>
  Claim C2, amended. \<open>FindReviewers\<close> never reports a failure: whatever the per-path
  queries deliver, in whatever order, the error it returns is \<open>nil\<close>.
\<close>

theorem FindReviewers_error_nil:
  "snd (FindReviewers srt sent) = None"
  unfolding FindReviewers_def topReviewers_def Let_def by (rule snd_conv)

section \<open>The changed files\<close>

lemma Trim_decomp:
  "dropWhile (\<lambda>c. c \<in> set cutset) s
     = Trim s cutset
       @ rev (takeWhile (\<lambda>c. c \<in> set cutset) (rev (dropWhile (\<lambda>c. c \<in> set cutset) s)))"
  unfolding Trim_def by (metis rev_append rev_rev_ident takeWhile_dropWhile_id)

lemma Trim_ends:
  assumes "Trim s cutset \<noteq> []"
  shows "hd (Trim s cutset) \<notin> set cutset" and "last (Trim s cutset) \<notin> set cutset"
proof -
  define t where "t = dropWhile (\<lambda>c. c \<in> set cutset) s"
  define u where "u = dropWhile (\<lambda>c. c \<in> set cutset) (rev t)"
  have trim: "Trim s cutset = rev u"
    by (simp add: Trim_def t_def u_def)
  with assms have u: "u \<noteq> []" by simp
  then have "hd u \<notin> set cutset"
    unfolding u_def by (rule hd_dropWhile)
  then show "last (Trim s cutset) \<notin> set cutset"
    using u by (simp add: trim last_rev)
  have t: "t \<noteq> []"
    using u by (auto simp: u_def)
  then have "hd t \<notin> set cutset"
    unfolding t_def by (rule hd_dropWhile)
  moreover have "t = Trim s cutset @ rev (takeWhile (\<lambda>c. c \<in> set cutset) (rev t))"
    unfolding t_def by (rule Trim_decomp)
  then have "hd t = hd (Trim s cutset)"
    using assms by (metis hd_append2)
  ultimately show "hd (Trim s cutset) \<notin> set cutset" by simp
qed

lemma FindFiles_lines_origin:
  "p \<in> set (FindFiles_lines r lines) \<longleftrightarrow>
     (\<exists>line\<in>set lines.
        p = Trim line '' '' \<and> p \<noteq> [] \<and> considerExt line r \<and> considerPath line r)"
  by (induction lines) (auto simp: Let_def)

text \<open>
  Claim C8, as the specification states it: every path \<open>FindFiles\<close> returns is
  non-empty, trimmed of whitespace, and accepted by both filters. With no filter
  lists, the diff output of the two lines \<open>"\ta.go"\<close> and \<open>"b.json "\<close> gives the
  paths \<open>"\ta.go"\<close> and \<open>"b.json"\<close>: the first still starts with a tab, since
  only spaces are trimmed, and the second is rejected by \<open>considerExt\<close>, which was
  asked about the line before trimming.
\<close>

theorem FindFiles_counterexample:
  "FindFiles noFilters (Inr (CHR 0x09 # ''a.go'' @ CHR 0x0A # ''b.json '' @ [CHR 0x0A]))
     = Inr [CHR 0x09 # ''a.go'', ''b.json'']
   \<and> hd (CHR 0x09 # ''a.go'') = CHR 0x09
   \<and> \<not> considerExt ''b.json'' noFilters"
  by (simp add: FindFiles_def noFilters_def Trim_def considerExt_def considerPath_def
      defaultIgnoreExt_def HasSuffix_def)

text \<open>
  Claim C8, amended. Every path \<open>FindFiles\<close> returns is non-empty and neither
  starts nor ends with a space. A returned path is accepted by \<open>considerExt\<close> and by
  \<open>considerPath\<close> whenever every line of the diff output that trims to it is the
  path itself, that is, none of those lines starts or ends with a space. Other lines
  of the output, padded or not, do not matter.
\<close>

theorem FindFiles_paths:
  assumes "FindFiles r (Inr out) = Inr paths" and "p \<in> set paths"
  shows "p \<noteq> [] \<and> hd p \<noteq> CHR '' '' \<and> last p \<noteq> CHR '' ''
     \<and> ((\<forall>line\<in>set (Split out (CHR 0x0A)). Trim line '' '' = p \<longrightarrow> line = p) \<longrightarrow>
          considerExt p r \<and> considerPath p r)"
proof -
  from assms have "p \<in> set (FindFiles_lines r (Split out (CHR 0x0A)))"
    by (simp add: FindFiles_def)
  then obtain line where line: "line \<in> set (Split out (CHR 0x0A))"
    and p: "p = Trim line '' ''" and ne: "p \<noteq> []"
    and ok: "considerExt line r" "considerPath line r"
    by (auto simp: FindFiles_lines_origin)
  from ne p Trim_ends [of line "'' ''"] have "hd p \<noteq> CHR '' ''" "last p \<noteq> CHR '' ''"
    by simp_all
  moreover have "considerExt p r \<and> considerPath p r"
    if unpadded: "\<forall>line\<in>set (Split out (CHR 0x0A)). Trim line '' '' = p \<longrightarrow> line = p"
  proof -
    from unpadded line p have "line = p" by blast
    with ok show ?thesis by simp
  qed
  ultimately show ?thesis
    using ne by blast
qed

theorem FindFiles_paths_witness:
  "FindFiles noFilters
      (Inr (''a.go'' @ CHR 0x0A # ''b.json '' @ CHR 0x0A # ''vendor/c.go'' @ [CHR 0x0A]))
     = Inr [''a.go'', ''b.json'', ''vendor/c.go'']
   \<and> considerExt ''vendor/c.go'' noFilters \<and> considerPath ''vendor/c.go'' noFilters
   \<and> \<not> considerExt ''b.json'' noFilters"
proof -
  have run: "FindFiles noFilters
      (Inr (''a.go'' @ CHR 0x0A # ''b.json '' @ CHR 0x0A # ''vendor/c.go'' @ [CHR 0x0A]))
     = Inr [''a.go'', ''b.json'', ''vendor/c.go'']"
    by (simp add: FindFiles_def noFilters_def Trim_def considerExt_def considerPath_def
        defaultIgnoreExt_def HasSuffix_def)
  have mem: "''vendor/c.go'' \<in> set [''a.go'', ''b.json'', ''vendor/c.go'']"
    by simp
  have unpadded: "\<forall>line\<in>set (Split
      (''a.go'' @ CHR 0x0A # ''b.json '' @ CHR 0x0A # ''vendor/c.go'' @ [CHR 0x0A]) (CHR 0x0A)).
      Trim line '' '' = ''vendor/c.go'' \<longrightarrow> line = ''vendor/c.go''"
    by (simp add: Trim_def)
  have rejected: "\<not> considerExt ''b.json'' noFilters"
    by (simp add: noFilters_def considerExt_def defaultIgnoreExt_def HasSuffix_def)
  from FindFiles_paths [OF run mem] unpadded run rejected show ?thesis
    by blast
qed

end
